theory Spec2Isabelle
  imports Main "HOL-Library.Word" "HOL-Library.Sublist"
begin

unbundle bit_operations_syntax

text \<open>
  A shallow embedding of the speed-test servers: the chunked server (part_001, with its
  \<open>generateRandomBuffer\<close>, \<open>GET /download\<close>, \<open>GET /download-progressive\<close> and
  \<open>POST /upload\<close>), the first server in the same file, and server.js. Handlers are
  functions from the parts of the request they read to the response they produce;
  the random source, the clock and the outcome of each write are inputs.
\<close>

section \<open>JavaScript values used by the handlers\<close>

text \<open>
  The handlers read query parameters with \<open>parseInt(req.query.x) || d\<close>. A JavaScript
  number is modelled by \<open>jsnum\<close>: an integer or one of the two infinities; \<open>NaN\<close> is
  \<open>None\<close> of \<open>jsnum option\<close>, and \<open>-0\<close> is \<open>Num 0\<close> (both are falsy and compare equal).
  Integers are kept exact. A double is exact below \<open>2^53\<close>; above, its rounding changes
  no outcome here: such a \<open>size\<close> is compared with 100 and 1 only, and such a
  \<open>chunk\<close> is larger in magnitude than every buffer size, so that \<open>chunkCount\<close> is 1
  or not positive either way. The quotient \<open>bufferSize / chunkSize\<close> of two exact
  integers with \<open>bufferSize\<close> below \<open>2^27\<close> rounds to a double with the same ceiling.
  A digit string whose value reaches \<open>2^1024 - 2^970\<close> parses to \<open>Infinity\<close>.
  A query parameter is absent (\<open>None\<close>, the value \<open>undefined\<close>) or one string of
  characters below 256.
\<close>

datatype jsnum = Num int | PosInf | NegInf

datatype jserror = RangeError | TypeError

type_synonym byte = "8 word"

definition isWhiteSpace :: "char \<Rightarrow> bool" where
  "isWhiteSpace c = ((of_char c :: nat) \<in> {9, 10, 11, 12, 13, 32, 160})"

definition digitVal :: "nat \<Rightarrow> char \<Rightarrow> nat option" where
  "digitVal R c =
     (let n = (of_char c :: nat);
          v = (if 48 \<le> n \<and> n \<le> 57 then Some (n - 48)
               else if 97 \<le> n \<and> n \<le> 122 then Some (n - 87)
               else if 65 \<le> n \<and> n \<le> 90 then Some (n - 55)
               else None)
      in case v of None \<Rightarrow> None | Some d \<Rightarrow> if d < R then Some d else None)"

text \<open>The longest prefix of radix-\<open>R\<close> digits and its value; \<open>None\<close> when it is empty.\<close>

fun parseDigits :: "nat \<Rightarrow> nat option \<Rightarrow> string \<Rightarrow> nat option" where
  "parseDigits R acc [] = acc"
| "parseDigits R acc (c # cs) =
     (case digitVal R c of
        None \<Rightarrow> acc
      | Some d \<Rightarrow> parseDigits R (Some (R * (case acc of None \<Rightarrow> 0 | Some a \<Rightarrow> a) + d)) cs)"

definition toNumber :: "int \<Rightarrow> jsnum" where
  "toNumber v =
     (if 2 ^ 1024 - 2 ^ 970 \<le> v then PosInf
      else if v \<le> - (2 ^ 1024 - 2 ^ 970) then NegInf
      else Num v)"

text \<open>
  \<open>parseInt(x)\<close> with no radix (ECMAScript 19.2.5): the argument is converted to a string
  (\<open>undefined\<close> gives the text "undefined"), leading white space is dropped, a sign is
  read, a \<open>0x\<close> prefix selects radix 16, and the longest digit prefix is the value.
\<close>

definition parseInt :: "string option \<Rightarrow> jsnum option" where
  "parseInt arg =
     (let inputString = (case arg of None \<Rightarrow> ''undefined'' | Some s \<Rightarrow> s);
          S = dropWhile isWhiteSpace inputString;
          sign = (if take 1 S = ''-'' then - 1 else (1::int));
          S1 = (if take 1 S = ''+'' \<or> take 1 S = ''-'' then drop 1 S else S);
          R = (if take 2 S1 = ''0x'' \<or> take 2 S1 = ''0X'' then 16 else (10::nat));
          S2 = (if R = 16 then drop 2 S1 else S1)
      in case parseDigits R None S2 of
           None \<Rightarrow> None
         | Some m \<Rightarrow> Some (toNumber (sign * int m)))"

text \<open>\<open>x || d\<close> on numbers: \<open>NaN\<close> and zero are falsy.\<close>

definition js_or :: "jsnum option \<Rightarrow> jsnum \<Rightarrow> jsnum" where
  "js_or x d = (case x of None \<Rightarrow> d | Some (Num v) \<Rightarrow> (if v = 0 then d else Num v) | Some y \<Rightarrow> y)"

section \<open>Buffers and the random payload generator\<close>

text \<open>
  \<open>Buffer.alloc(n, c)\<close> gives \<open>n\<close> bytes \<open>c\<close> (zero when no fill is given) and throws a RangeError for a negative size
  (the platform's upper limit on a buffer is a resource bound and is not modelled).
  \<open>buf.writeUInt32LE(v, i)\<close> throws a RangeError unless \<open>0 \<le> i \<le> buf.length - 4\<close>.
\<close>

definition Buffer_alloc :: "int \<Rightarrow> byte \<Rightarrow> jserror + byte list" where
  "Buffer_alloc n c = (if n < 0 then Inl RangeError else Inr (replicate (nat n) c))"

definition writeUInt32LE :: "byte list \<Rightarrow> 32 word \<Rightarrow> int \<Rightarrow> jserror + byte list" where
  "writeUInt32LE buf v offset =
     (if offset < 0 \<or> int (length buf) - 4 < offset then Inl RangeError
      else let i = nat offset in
        Inr (buf[i := ucast v,
                 i + 1 := ucast (drop_bit 8 v),
                 i + 2 := ucast (drop_bit 16 v),
                 i + 3 := ucast (drop_bit 24 v)]))"

text \<open>
  \<open>generateRandomBuffer(sizeInBytes)\<close>. The value
  \<open>Math.floor(Math.random() * 0xFFFFFFFF)\<close> of the \<open>k\<close>-th draw is \<open>rnd k\<close>, a 32-bit
  word (always a legal argument of \<open>writeUInt32LE\<close>); the number of draws made so far is
  threaded through. \<open>fill\<close> is the \<open>for (let i = 0; i < sizeInBytes; i += 4)\<close> loop.
\<close>

function fill :: "(nat \<Rightarrow> 32 word) \<Rightarrow> nat \<Rightarrow> byte list \<Rightarrow> int \<Rightarrow> int \<Rightarrow> jserror + (byte list \<times> nat)" where
  "fill rnd k buffer sizeInBytes i =
     (if i < sizeInBytes then
        (case writeUInt32LE buffer (rnd k) i of
           Inl e \<Rightarrow> Inl e
         | Inr buffer' \<Rightarrow> fill rnd (Suc k) buffer' sizeInBytes (i + 4))
      else Inr (buffer, k))"
  by pat_completeness auto
termination
  by (relation "measure (\<lambda>(rnd, k, buffer, sizeInBytes, i). nat (sizeInBytes - i))") auto

declare fill.simps [simp del]

definition generateRandomBuffer :: "(nat \<Rightarrow> 32 word) \<Rightarrow> nat \<Rightarrow> int \<Rightarrow> jserror + (byte list \<times> nat)" where
  "generateRandomBuffer rnd k sizeInBytes =
     (case Buffer_alloc sizeInBytes 0 of
        Inl e \<Rightarrow> Inl e
      | Inr buffer \<Rightarrow> fill rnd k buffer sizeInBytes 0)"

section \<open>Size-bounded download: the chunk loop of \<open>GET /download\<close>\<close>

text \<open>
  What a streaming handler does to the response is recorded as a list of events.
  \<open>Write b\<close>: \<open>res.write(b, callback)\<close> is called. \<open>Ack\<close>: the callback runs with no
  error. \<open>WriteError\<close>: the callback runs with an error, logs it and returns, so the
  loop stops without \<open>res.end()\<close>. \<open>Throw e\<close>: an exception leaves the loop.
  \<open>End\<close>: \<open>res.end()\<close>.
\<close>

datatype event = Write "byte list" | Ack | WriteError | Throw jserror | End

text \<open>
  \<open>sendChunk(chunkIndex)\<close> with the variables it closes over: \<open>bufferSize\<close>,
  \<open>chunkSize\<close>, \<open>chunkCount\<close> and the mutable \<open>sentBytes\<close>. \<open>werr i\<close> tells whether the
  sink reports an error for the write of chunk \<open>i\<close>; \<open>k\<close> counts the random draws made.
  \<open>setImmediate\<close> only defers the next call, which is the recursive call here.
\<close>

function sendChunk ::
  "(nat \<Rightarrow> 32 word) \<Rightarrow> (nat \<Rightarrow> bool) \<Rightarrow> int \<Rightarrow> int \<Rightarrow> int \<Rightarrow> int \<Rightarrow> int \<Rightarrow> nat \<Rightarrow> event list" where
  "sendChunk rnd werr bufferSize chunkSize chunkCount chunkIndex sentBytes k =
     (if chunkIndex \<ge> chunkCount then [End]
      else
        let remainingBytes = bufferSize - sentBytes;
            currentChunkSize = min chunkSize remainingBytes
        in case generateRandomBuffer rnd k currentChunkSize of
             Inl e \<Rightarrow> [Throw e]
           | Inr (chunkBuffer, k') \<Rightarrow>
               Write chunkBuffer #
                 (if werr (nat chunkIndex) then [WriteError]
                  else Ack #
                    (if chunkIndex < chunkCount - 1
                     then sendChunk rnd werr bufferSize chunkSize chunkCount
                            (chunkIndex + 1) (sentBytes + currentChunkSize) k'
                     else [End])))"
  by pat_completeness auto
termination
  by (relation "measure (\<lambda>(rnd, werr, bufferSize, chunkSize, chunkCount, chunkIndex, sentBytes, k).
        nat (chunkCount - chunkIndex))") auto

declare sendChunk.simps [simp del]

text \<open>
  A response: a JSON reply with a status and an error text; a buffer sent whole with its
  Content-Length; a stream with the declared Content-Length and the events of its loop;
  a stream with no Content-Length (chunked transfer encoding); an exception that leaves
  the handler.
\<close>

datatype response =
    JsonError nat string
  | Sent int "byte list"
  | Streamed int "event list"
  | Chunked "event list"
  | Failed jserror

text \<open>\<open>Math.ceil(bufferSize / chunkSize)\<close> for integers, \<open>chunkSize\<close> not zero.\<close>

definition ceil_div :: "int \<Rightarrow> int \<Rightarrow> int" where
  "ceil_div a b = - ((- a) div b)"

text \<open>
  \<open>GET /download\<close> of the chunked server (part_001, lines 117 to 179). The comparisons
  \<open>size > 100\<close> and \<open>size < 1\<close> are written out for the infinities. \<open>chunkSize\<close> is never
  zero after \<open>||\<close>. For an infinite \<open>chunkSize\<close> the quotient \<open>bufferSize / chunkSize\<close> is a
  zero, \<open>chunkCount\<close> is 0 and \<open>sendChunk(0)\<close> ends the response in its first branch.
\<close>

definition download ::
  "(nat \<Rightarrow> 32 word) \<Rightarrow> (nat \<Rightarrow> bool) \<Rightarrow> string option \<Rightarrow> string option \<Rightarrow> response" where
  "download rnd werr qsize qchunk =
     (let size = js_or (parseInt qsize) (Num 10);
          chunkSize = js_or (parseInt qchunk) (Num (1024 * 1024))
      in case size of
           PosInf \<Rightarrow> JsonError 400 ''Maximum download size is 100MB''
         | NegInf \<Rightarrow> JsonError 400 ''Minimum download size is 1MB''
         | Num sz \<Rightarrow>
             let bufferSize = sz * 1024 * 1024 in
             if sz > 100 then JsonError 400 ''Maximum download size is 100MB''
             else if sz < 1 then JsonError 400 ''Minimum download size is 1MB''
             else case chunkSize of
                    Num cs \<Rightarrow>
                      Streamed bufferSize
                        (sendChunk rnd werr bufferSize cs (ceil_div bufferSize cs) 0 0 0)
                  | _ \<Rightarrow> Streamed bufferSize [End])"

text \<open>
  \<open>GET /download\<close> of server.js (lines 58 to 73):
  \<open>Math.min(size, 20) * 1024 * 1024\<close> bytes \<open>'X'\<close>, sent whole.
\<close>

definition js_min :: "jsnum \<Rightarrow> int \<Rightarrow> jsnum" where
  "js_min x m = (case x of Num v \<Rightarrow> Num (min v m) | PosInf \<Rightarrow> Num m | NegInf \<Rightarrow> NegInf)"

definition server_download :: "string option \<Rightarrow> response" where
  "server_download qsize =
     (let size = js_or (parseInt qsize) (Num 5)
      in case js_min size 20 of
           Num m \<Rightarrow>
             (let bufferSize = m * 1024 * 1024
              in case Buffer_alloc bufferSize 88 of
                   Inl e \<Rightarrow> Failed e
                 | Inr buffer \<Rightarrow> Sent bufferSize buffer)
         | _ \<Rightarrow> Failed RangeError)"

subsection \<open>Reading a trace\<close>

text \<open>
  The buffers written, in order; the bytes delivered; whether the stream was ended; and
  the buffers handed to \<open>res.write\<close> whose callback has not run yet.
\<close>

fun written :: "event list \<Rightarrow> byte list list" where
  "written [] = []"
| "written (Write b # es) = b # written es"
| "written (e # es) = written es"

definition delivered :: "event list \<Rightarrow> int" where
  "delivered es = int (length (concat (written es)))"

definition completed :: "event list \<Rightarrow> bool" where
  "completed es = (es \<noteq> [] \<and> last es = End)"

fun outstanding :: "byte list list \<Rightarrow> event list \<Rightarrow> byte list list" where
  "outstanding acc [] = acc"
| "outstanding acc (Write b # es) = outstanding (acc @ [b]) es"
| "outstanding acc (Ack # es) = outstanding (drop 1 acc) es"
| "outstanding acc (WriteError # es) = outstanding (drop 1 acc) es"
| "outstanding acc (e # es) = outstanding acc es"

section \<open>Duration-bounded download: \<open>GET /download-progressive\<close>\<close>

text \<open>
  \<open>sendNextChunk\<close> (part_001, lines 226 to 242). Each call reads \<open>Date.now()\<close> once; the
  environment is the list of these readings, each with the outcome of the write that
  follows it. When the list is used up the observation stops with the loop still
  running, and the trace has no \<open>End\<close>. \<open>elapsed_ge e d\<close> is \<open>e >= d\<close> for a number \<open>d\<close>
  that may be infinite.
\<close>

definition elapsed_ge :: "int \<Rightarrow> jsnum \<Rightarrow> bool" where
  "elapsed_ge e d = (case d of Num v \<Rightarrow> e \<ge> v | PosInf \<Rightarrow> False | NegInf \<Rightarrow> True)"

fun sendNextChunk ::
  "(nat \<Rightarrow> 32 word) \<Rightarrow> jsnum \<Rightarrow> int \<Rightarrow> nat \<Rightarrow> (int \<times> bool) list \<Rightarrow> event list" where
  "sendNextChunk rnd duration startTime k [] = []"
| "sendNextChunk rnd duration startTime k ((now, werr) # ticks) =
     (if elapsed_ge (now - startTime) duration then [End]
      else case generateRandomBuffer rnd k (1024 * 1024) of
             Inl e \<Rightarrow> [Throw e]
           | Inr (chunkBuffer, k') \<Rightarrow>
               Write chunkBuffer #
                 (if werr then [WriteError]
                  else Ack # sendNextChunk rnd duration startTime k' ticks))"

definition download_progressive ::
  "(nat \<Rightarrow> 32 word) \<Rightarrow> string option \<Rightarrow> int \<Rightarrow> (int \<times> bool) list \<Rightarrow> response" where
  "download_progressive rnd qduration startTime ticks =
     (let duration = js_or (parseInt qduration) (Num 5000)
      in Chunked (sendNextChunk rnd duration startTime 0 ticks))"

section \<open>Upload: \<open>POST /upload\<close>\<close>

text \<open>
  The upload handlers read \<open>req.body\<close>, which the body-parsing middleware of Express
  sets before the handler runs. The values it can have here: a \<open>Buffer\<close> of the payload
  (\<open>express.raw\<close>), the empty object \<open>{}\<close>, or \<open>undefined\<close>.

  A request carries its media type and its Content-Encoding (both lower case, the media
  type without parameters), its framing, and the bytes on the wire as the list of the
  client's writes. The framing is a Content-Length header, chunked transfer encoding, or
  neither (a request with no body). The Content-Length header is not a free field: it
  is the decimal text of the number of bytes written, as HTTP requires.
\<close>

datatype jsvalue = Undefined | EmptyObject | Buffer "byte list"

datatype framing = WithContentLength | ChunkedTransfer | NoBody

record request =
  contentType :: string
  contentEncoding :: "string option"
  framing :: framing
  writes :: "byte list list"

fun decimal :: "nat \<Rightarrow> string" where
  "decimal n = (if n < 10 then [char_of (48 + n)] else decimal (n div 10) @ [char_of (48 + n mod 10)])"

declare decimal.simps [simp del]

definition contentLength :: "request \<Rightarrow> string option" where
  "contentLength req =
     (case framing req of
        WithContentLength \<Rightarrow> Some (decimal (length (concat (writes req))))
      | _ \<Rightarrow> None)"

text \<open>
  The middleware is a library (body-parser) and is modelled from its documentation and
  its defaults, which the servers do not change. A parser reads the body when the request
  has one (a Transfer-Encoding or a Content-Length header) and its media type matches;
  otherwise \<open>req.body\<close> keeps the value \<open>unparsed\<close> that the library's version leaves
  there (\<open>{}\<close> in body-parser 1, \<open>undefined\<close> in body-parser 2). Reading joins the pieces
  received and, since \<open>inflate\<close> is on by default, undoes the Content-Encoding: with no
  Content-Encoding or \<open>identity\<close> the body is the bytes written; otherwise it is what
  the library's decoder makes of them. The decoder is the parameter \<open>inflate\<close>: for an
  encoding it supports (\<open>gzip\<close> and \<open>deflate\<close>; \<open>br\<close> too in body-parser 2) it gives
  the decoded bytes, or status 400 when they are corrupt, and for any other encoding
  status 415. A body above the limit is answered 413. \<open>JSON.parse\<close> is the parameter
  \<open>parse\<close>.
\<close>

definition hasBody :: "request \<Rightarrow> bool" where
  "hasBody req = (framing req \<noteq> NoBody)"

definition unencoded :: "request \<Rightarrow> bool" where
  "unencoded req = (contentEncoding req = None \<or> contentEncoding req = Some ''identity'')"

definition decode_body ::
  "(string \<Rightarrow> byte list \<Rightarrow> nat + byte list) \<Rightarrow> request \<Rightarrow> nat + byte list" where
  "decode_body inflate req =
     (let wire = concat (writes req)
      in case contentEncoding req of
           None \<Rightarrow> Inr wire
         | Some e \<Rightarrow> if e = ''identity'' then Inr wire else inflate e wire)"

definition read_body ::
  "(string \<Rightarrow> byte list \<Rightarrow> nat + byte list) \<Rightarrow> nat \<Rightarrow> request \<Rightarrow> nat + byte list" where
  "read_body inflate limit req =
     (case decode_body inflate req of
        Inl code \<Rightarrow> Inl code
      | Inr body \<Rightarrow> if limit < length body then Inl 413 else Inr body)"

definition express_raw ::
  "(string \<Rightarrow> byte list \<Rightarrow> nat + byte list) \<Rightarrow> nat \<Rightarrow> jsvalue \<Rightarrow> request \<Rightarrow> nat + jsvalue" where
  "express_raw inflate limit unparsed req =
     (if hasBody req \<and> contentType req = ''application/octet-stream''
      then (case read_body inflate limit req of
              Inl code \<Rightarrow> Inl code
            | Inr body \<Rightarrow> Inr (Buffer body))
      else Inr unparsed)"

text \<open>\<open>express.json\<close> gives \<open>{}\<close> for an empty body without parsing it.\<close>

definition express_json ::
  "(string \<Rightarrow> byte list \<Rightarrow> nat + byte list) \<Rightarrow> (byte list \<Rightarrow> jsvalue option)
     \<Rightarrow> nat \<Rightarrow> jsvalue \<Rightarrow> request \<Rightarrow> nat + jsvalue" where
  "express_json inflate parse limit unparsed req =
     (if hasBody req \<and> contentType req = ''application/json''
      then (case read_body inflate limit req of
              Inl code \<Rightarrow> Inl code
            | Inr body \<Rightarrow>
                if body = [] then Inr EmptyObject
                else case parse body of None \<Rightarrow> Inl 400 | Some v \<Rightarrow> Inr v)
      else Inr unparsed)"

text \<open>
  A reply of an upload handler: the 200 reply with its byte-count field (\<open>None\<close> when the
  field is \<open>undefined\<close> or \<open>NaN\<close>), an error reply, or an exception nobody catches in
  the handler.
\<close>

datatype upload_response =
    UploadReply "jsnum option"
  | UploadError nat string
  | UploadThrow jserror

text \<open>\<open>v.length\<close>: a TypeError on \<open>undefined\<close>, \<open>undefined\<close> on \<open>{}\<close>, the byte count of a Buffer.\<close>

definition prop_length :: "jsvalue \<Rightarrow> jserror + int option" where
  "prop_length v =
     (case v of
        Undefined \<Rightarrow> Inl TypeError
      | EmptyObject \<Rightarrow> Inr None
      | Buffer b \<Rightarrow> Inr (Some (int (length b))))"

text \<open>
  The handler of the chunked server (part_001, lines 182 to 210): \<open>req.body.length\<close>
  inside \<open>try\<close>, and the request through its middleware, \<open>express.raw\<close> with limit
  \<open>100mb\<close>; an error of the middleware reaches the server's error handler, which
  answers 500.
\<close>

definition upload :: "jsvalue \<Rightarrow> upload_response" where
  "upload body =
     (case prop_length body of
        Inl e \<Rightarrow> UploadError 500 ''Upload processing failed''
      | Inr receivedBytes \<Rightarrow> UploadReply (map_option Num receivedBytes))"

definition upload_request ::
  "(string \<Rightarrow> byte list \<Rightarrow> nat + byte list) \<Rightarrow> jsvalue \<Rightarrow> request \<Rightarrow> upload_response" where
  "upload_request inflate unparsed req =
     (case express_raw inflate (100 * 1024 * 1024) unparsed req of
        Inl code \<Rightarrow> UploadError 500 ''Internal server error''
      | Inr body \<Rightarrow> upload body)"

text \<open>
  The handler of server.js (lines 76 to 96):
  \<open>body.length || (req.headers['content-length'] ? parseInt(req.headers['content-length']) : 0)\<close>,
  behind \<open>express.json\<close> and \<open>express.raw\<close>, both with limit \<open>50mb\<close>. An empty string is
  falsy. The Content-Length header counts the bytes on the wire.
\<close>

definition server_upload :: "jsvalue \<Rightarrow> string option \<Rightarrow> upload_response" where
  "server_upload body header =
     (let fallback = (case header of
                        None \<Rightarrow> Some (Num 0)
                      | Some h \<Rightarrow> if h = [] then Some (Num 0) else parseInt (Some h))
      in case prop_length body of
           Inl e \<Rightarrow> UploadError 500 ''Upload failed''
         | Inr None \<Rightarrow> UploadReply fallback
         | Inr (Some n) \<Rightarrow> UploadReply (if n = 0 then fallback else Some (Num n)))"

definition server_upload_request ::
  "(string \<Rightarrow> byte list \<Rightarrow> nat + byte list) \<Rightarrow> (byte list \<Rightarrow> jsvalue option)
     \<Rightarrow> jsvalue \<Rightarrow> request \<Rightarrow> upload_response" where
  "server_upload_request inflate parse unparsed req =
     (case (if contentType req = ''application/json''
            then express_json inflate parse (50 * 1024 * 1024) unparsed req
            else express_raw inflate (50 * 1024 * 1024) unparsed req) of
        Inl code \<Rightarrow> UploadError code []
      | Inr body \<Rightarrow> server_upload body (contentLength req))"

text \<open>
  The first server (part_001, lines 28 to 30): \<open>JSON.stringify(req.body).length\<close>, behind
  \<open>express.json\<close> alone, with no \<open>try\<close>. \<open>JSON.stringify\<close> gives \<open>undefined\<close> for
  \<open>undefined\<close>, the text of two braces for \<open>{}\<close>, and for a Buffer the text of its
  \<open>toJSON\<close> form, an object with the fields \<open>type\<close> and \<open>data\<close>.
\<close>

fun join_comma :: "string list \<Rightarrow> string" where
  "join_comma [] = []"
| "join_comma [x] = x"
| "join_comma (x # y # ys) = x @ '','' @ join_comma (y # ys)"

definition quoted :: "string \<Rightarrow> string" where
  "quoted s = CHR 0x22 # s @ [CHR 0x22]"

definition JSON_stringify :: "jsvalue \<Rightarrow> string option" where
  "JSON_stringify v =
     (case v of
        Undefined \<Rightarrow> None
      | EmptyObject \<Rightarrow> Some ''{}''
      | Buffer b \<Rightarrow>
          Some (''{'' @ quoted ''type'' @ '':'' @ quoted ''Buffer'' @ '','' @ quoted ''data'' @ '':[''
                @ join_comma (map (\<lambda>x. decimal (unat x)) b) @ '']}''))"

definition upload_v1 :: "jsvalue \<Rightarrow> upload_response" where
  "upload_v1 body =
     (case JSON_stringify body of
        None \<Rightarrow> UploadThrow TypeError
      | Some s \<Rightarrow> UploadReply (Some (Num (int (length s)))))"

definition upload_v1_request ::
  "(string \<Rightarrow> byte list \<Rightarrow> nat + byte list) \<Rightarrow> (byte list \<Rightarrow> jsvalue option)
     \<Rightarrow> jsvalue \<Rightarrow> request \<Rightarrow> upload_response" where
  "upload_v1_request inflate parse unparsed req =
     (case express_json inflate parse (50 * 1024 * 1024) unparsed req of
        Inl code \<Rightarrow> UploadError code []
      | Inr body \<Rightarrow> upload_v1 body)"

section \<open>Rate limiter\<close>

text \<open>
  The servers only configure the middleware \<open>rateLimit({windowMs, max, ...})\<close> of the
  package express-rate-limit, whose code is not in the repository. The limiter is
  therefore taken from the specification: the \<open>RateWindow\<close> of its section 3 and the
  admission check of its section 4.4. Times are milliseconds.
\<close>

record RateWindow =
  windowStartedAt :: int
  count :: nat

record admission =
  allowed :: bool
  retryAfter :: "int option"

text \<open>
  Modelled from the spec: \<open>admit\<close>, the admission check of express-rate-limit, which is
  missing from the sources. Look up or create the client's window; reset it when the
  time since \<open>windowStartedAt\<close> exceeds the window length; increment \<open>count\<close>; above
  the maximum answer \<open>allowed = false\<close> with the remaining window time as
  \<open>retryAfter\<close>, otherwise \<open>allowed = true\<close>.
\<close>

definition admit ::
  "int \<Rightarrow> nat \<Rightarrow> int \<Rightarrow> string \<Rightarrow> (string \<rightharpoonup> RateWindow)
     \<Rightarrow> admission \<times> (string \<rightharpoonup> RateWindow)" where
  "admit windowMs maxRequests now clientKey registry =
     (let w = (case registry clientKey of
                 None \<Rightarrow> \<lparr>windowStartedAt = now, count = 0\<rparr>
               | Some w0 \<Rightarrow> w0);
          w1 = (if now - windowStartedAt w > windowMs
                then \<lparr>windowStartedAt = now, count = 0\<rparr> else w);
          w2 = w1\<lparr>count := count w1 + 1\<rparr>;
          registry' = registry(clientKey \<mapsto> w2)
      in if count w2 > maxRequests
         then (\<lparr>allowed = False, retryAfter = Some (windowStartedAt w2 + windowMs - now)\<rparr>, registry')
         else (\<lparr>allowed = True, retryAfter = None\<rparr>, registry'))"

text \<open>The calls of one client at the times of a list, in order.\<close>

fun admit_all ::
  "int \<Rightarrow> nat \<Rightarrow> string \<Rightarrow> int list \<Rightarrow> (string \<rightharpoonup> RateWindow)
     \<Rightarrow> admission list \<times> (string \<rightharpoonup> RateWindow)" where
  "admit_all windowMs maxRequests clientKey [] registry = ([], registry)"
| "admit_all windowMs maxRequests clientKey (t # ts) registry =
     (let (d, registry') = admit windowMs maxRequests t clientKey registry;
          (ds, registry'') = admit_all windowMs maxRequests clientKey ts registry'
      in (d # ds, registry''))"

section \<open>Notions used to state the properties\<close>


definition js_gt :: "jsnum \<Rightarrow> int \<Rightarrow> bool" where
  "js_gt x m = (case x of Num v \<Rightarrow> v > m | PosInf \<Rightarrow> True | NegInf \<Rightarrow> False)"

definition le_js :: "int \<Rightarrow> jsnum \<Rightarrow> bool" where
  "le_js x d = (case d of Num v \<Rightarrow> x \<le> v | PosInf \<Rightarrow> True | NegInf \<Rightarrow> False)"

text \<open>
  Two kinds of parameter texts: one with no number to parse (after white space and one
  sign the text does not go on with a decimal digit), and a text of zeros.
\<close>

definition is_digit :: "char \<Rightarrow> bool" where
  "is_digit c = (48 \<le> (of_char c :: nat) \<and> (of_char c :: nat) \<le> 57)"

definition strip_sign :: "string \<Rightarrow> string" where
  "strip_sign s = (if take 1 s = ''+'' \<or> take 1 s = ''-'' then drop 1 s else s)"

definition non_numeric :: "string \<Rightarrow> bool" where
  "non_numeric s =
     (case strip_sign (dropWhile isWhiteSpace s) of [] \<Rightarrow> True | c # cs \<Rightarrow> \<not> is_digit c)"

definition zero_text :: "string \<Rightarrow> bool" where
  "zero_text s = (s \<noteq> [] \<and> (\<forall>c \<in> set s. c = CHR ''0''))"

text \<open>
  A trace keeps at most one buffer in flight, of at most \<open>m\<close> bytes: after each of its
  prefixes, at most one buffer handed to \<open>res.write\<close> is still waiting for its callback.
\<close>

definition in_flight_ok :: "int \<Rightarrow> event list \<Rightarrow> bool" where
  "in_flight_ok m t = (\<forall>p. prefix p t \<longrightarrow> length (outstanding [] p) \<le> 1
                         \<and> (\<forall>x \<in> set (outstanding [] p). int (length x) \<le> m))"

text \<open>
  Fixed environments for concrete runs: every draw is 0, no write fails, no JSON parses,
  and the decoder turns whatever it is given into the payload \<open>p\<close>.
\<close>

definition zero_draws :: "nat \<Rightarrow> 32 word" where
  "zero_draws k = 0"

definition sink_accepts :: "nat \<Rightarrow> bool" where
  "sink_accepts i = False"

definition no_json :: "byte list \<Rightarrow> jsvalue option" where
  "no_json b = None"

definition inflates_to :: "byte list \<Rightarrow> string \<Rightarrow> byte list \<Rightarrow> nat + byte list" where
  "inflates_to p e wire = Inr p"

section \<open>The generator: when it returns and when it throws\<close>

lemma writeUInt32LE_length:
  "writeUInt32LE buf v i = Inr buf' \<Longrightarrow> length buf' = length buf"
  by (auto simp: writeUInt32LE_def Let_def split: if_splits)

lemma fill_aligned:
  "0 \<le> i \<Longrightarrow> 4 dvd i \<Longrightarrow> 4 dvd n \<Longrightarrow> int (length buffer) = n \<Longrightarrow> i \<le> n \<Longrightarrow>
   \<exists>buf. fill rnd k buffer n i = Inr (buf, k + nat ((n - i) div 4)) \<and> length buf = length buffer"
proof (induction rnd k buffer n i rule: fill.induct)
  case (1 rnd k buffer sizeInBytes i)
  show ?case
  proof (cases "i < sizeInBytes")
    case False
    with "1.prems" show ?thesis by (simp add: fill.simps)
  next
    case True
    from True "1.prems" have le: "i + 4 \<le> sizeInBytes" by presburger
    then obtain buffer' where w: "writeUInt32LE buffer (rnd k) i = Inr buffer'"
      using "1.prems" by (auto simp: writeUInt32LE_def Let_def)
    have len: "length buffer' = length buffer" using w by (rule writeUInt32LE_length)
    from "1.IH"[OF True w] "1.prems" le len
    obtain buf where r: "fill rnd (Suc k) buffer' sizeInBytes (i + 4)
         = Inr (buf, Suc k + nat ((sizeInBytes - (i + 4)) div 4))" and l: "length buf = length buffer'"
      by auto
    have "Suc k + nat ((sizeInBytes - (i + 4)) div 4) = k + nat ((sizeInBytes - i) div 4)"
      using le "1.prems" by (auto simp: nat_add_distrib elim!: dvdE)
    with r l len True w show ?thesis by (subst fill.simps) simp
  qed
qed

lemma generateRandomBuffer_aligned:
  assumes "0 \<le> n" and "4 dvd n"
  shows "\<exists>buf. generateRandomBuffer rnd k n = Inr (buf, k + nat (n div 4)) \<and> int (length buf) = n"
proof -
  have "\<exists>buf. fill rnd k (replicate (nat n) 0) n 0 = Inr (buf, k + nat ((n - 0) div 4))
          \<and> length buf = length (replicate (nat n) (0::byte))"
    using assms by (intro fill_aligned) auto
  with assms show ?thesis by (auto simp: generateRandomBuffer_def Buffer_alloc_def)
qed

lemma fill_unaligned:
  "0 \<le> i \<Longrightarrow> 4 dvd i \<Longrightarrow> \<not> 4 dvd n \<Longrightarrow> int (length buffer) = n \<Longrightarrow> i < n \<Longrightarrow>
   fill rnd k buffer n i = Inl RangeError"
proof (induction rnd k buffer n i rule: fill.induct)
  case (1 rnd k buffer sizeInBytes i)
  show ?case
  proof (cases "i + 4 \<le> sizeInBytes")
    case False
    with "1.prems" have "writeUInt32LE buffer (rnd k) i = Inl RangeError"
      by (simp add: writeUInt32LE_def)
    with "1.prems" show ?thesis by (subst fill.simps) simp
  next
    case True
    with "1.prems" have lt: "i + 4 < sizeInBytes" by presburger
    obtain buffer' where w: "writeUInt32LE buffer (rnd k) i = Inr buffer'"
      using True "1.prems" by (auto simp: writeUInt32LE_def Let_def)
    have len: "length buffer' = length buffer" using w by (rule writeUInt32LE_length)
    have "fill rnd (Suc k) buffer' sizeInBytes (i + 4) = Inl RangeError"
      using "1.IH"[OF "1.prems"(5) w] "1.prems" lt len by simp
    with "1.prems" w show ?thesis by (subst fill.simps) simp
  qed
qed

lemma generateRandomBuffer_unaligned:
  assumes "\<not> 4 dvd n"
  shows "generateRandomBuffer rnd k n = Inl RangeError"
proof (cases "n < 0")
  case True
  then show ?thesis by (simp add: generateRandomBuffer_def Buffer_alloc_def)
next
  case False
  with assms have "0 < n" by (cases "n = 0") auto
  then have "fill rnd k (replicate (nat n) 0) n 0 = Inl RangeError"
    using assms by (intro fill_unaligned) auto
  with False show ?thesis by (simp add: generateRandomBuffer_def Buffer_alloc_def)
qed

lemma generateRandomBuffer_negative:
  "n < 0 \<Longrightarrow> generateRandomBuffer rnd k n = Inl RangeError"
  by (simp add: generateRandomBuffer_def Buffer_alloc_def)

lemma generateRandomBuffer_returns_iff:
  "(\<exists>r. generateRandomBuffer rnd k n = Inr r) \<longleftrightarrow> 0 \<le> n \<and> 4 dvd n"
proof
  assume "\<exists>r. generateRandomBuffer rnd k n = Inr r"
  then show "0 \<le> n \<and> 4 dvd n"
    using generateRandomBuffer_unaligned[of n rnd k] generateRandomBuffer_negative[of n rnd k]
    by (cases "n < 0"; cases "4 dvd n") auto
next
  assume "0 \<le> n \<and> 4 dvd n"
  then show "\<exists>r. generateRandomBuffer rnd k n = Inr r"
    using generateRandomBuffer_aligned[of n rnd k] by auto
qed

lemma generateRandomBuffer_length:
  "generateRandomBuffer rnd k n = Inr (buf, k') \<Longrightarrow> int (length buf) = n"
proof -
  assume a: "generateRandomBuffer rnd k n = Inr (buf, k')"
  then have "0 \<le> n \<and> 4 dvd n" using generateRandomBuffer_returns_iff[of rnd k n] by auto
  then obtain b where "generateRandomBuffer rnd k n = Inr (b, k + nat (n div 4))" "int (length b) = n"
    using generateRandomBuffer_aligned[of n rnd k] by auto
  with a show ?thesis by simp
qed

section \<open>Concrete query strings\<close>

lemma parseInt_eval_simps:
  "parseInt (Some ''5'') = Some (Num 5)"
  "parseInt (Some ''1'') = Some (Num 1)"
  "parseInt (Some ''-1'') = Some (Num (- 1))"
  "parseInt (Some ''-4'') = Some (Num (- 4))"
  "parseInt (Some ''3'') = Some (Num 3)"
  "parseInt (Some ''10'') = Some (Num 10)"
  "parseInt (Some ''500'') = Some (Num 500)"
  "parseInt (Some ''1000'') = Some (Num 1000)"
  "parseInt (Some ''0'') = Some (Num 0)"
  "parseInt None = None"
  by (simp_all add: parseInt_def isWhiteSpace_def digitVal_def toNumber_def Let_def)

section \<open>The chunk loop on a positive chunk size that is a multiple of four\<close>

lemma ceil_div_bounds:
  fixes c B :: int
  assumes "0 < c"
  shows "(ceil_div B c - 1) * c < B" and "B \<le> ceil_div B c * c"
proof -
  define q where "q = (- B) div c"
  have m: "- B = q * c + (- B) mod c" by (simp add: q_def)
  have r: "0 \<le> (- B) mod c" "(- B) mod c < c" using assms by simp_all
  have n: "ceil_div B c = - q" by (simp add: ceil_div_def q_def)
  show "(ceil_div B c - 1) * c < B" using m r unfolding n by (simp add: algebra_simps)
  show "B \<le> ceil_div B c * c" using m r unfolding n by (simp add: algebra_simps)
qed

lemma sendChunk_aligned:
  fixes c B :: int
  assumes c: "0 < c" "4 dvd c" "4 dvd B" and ok: "\<forall>i. \<not> werr i"
  shows "0 \<le> j \<Longrightarrow> j < ceil_div B c \<Longrightarrow> m = nat (ceil_div B c - 1 - j) \<Longrightarrow>
     \<exists>bufs. sendChunk rnd werr B c (ceil_div B c) j (j * c) k
                = concat (map (\<lambda>b. [Write b, Ack]) bufs) @ [End]
            \<and> map (\<lambda>b. int (length b)) bufs = map (\<lambda>i. min c (B - i * c)) [j..ceil_div B c - 1]"
proof (induction m arbitrary: j k)
  case 0
  define n where "n = ceil_div B c"
  from 0 have j: "j = n - 1" by (simp add: n_def)
  have b: "(n - 1) * c < B" "B \<le> n * c" using ceil_div_bounds[OF c(1), of B] by (simp_all add: n_def)
  define s where "s = min c (B - j * c)"
  have "0 \<le> s" using b c j by (simp add: s_def)
  moreover have "4 dvd s" using c by (simp add: s_def min_def)
  ultimately obtain buf where g: "generateRandomBuffer rnd k s = Inr (buf, k + nat (s div 4))"
      and l: "int (length buf) = s"
    using generateRandomBuffer_aligned by blast
  have "sendChunk rnd werr B c n j (j * c) k = [Write buf, Ack, End]"
    using j g ok by (subst sendChunk.simps) (simp add: s_def Let_def)
  moreover have "[j..n - 1] = [j]" using j by simp
  ultimately show ?case using l unfolding n_def[symmetric] s_def
    by (intro exI[of _ "[buf]"]) simp
next
  case (Suc m)
  define n where "n = ceil_div B c"
  from Suc.prems have j: "j < n - 1" "0 \<le> j" by (simp_all add: n_def)
  have b: "(n - 1) * c < B" using ceil_div_bounds[OF c(1), of B] by (simp add: n_def)
  have "(j + 1) * c \<le> (n - 1) * c" using j c by (intro mult_right_mono) simp_all
  with b have full: "min c (B - j * c) = c" by (simp add: algebra_simps)
  obtain buf where g: "generateRandomBuffer rnd k c = Inr (buf, k + nat (c div 4))"
      and l: "int (length buf) = c"
    using generateRandomBuffer_aligned[of c rnd k] c by auto
  have "\<exists>bufs. sendChunk rnd werr B c (ceil_div B c) (j + 1) ((j + 1) * c) (k + nat (c div 4))
                = concat (map (\<lambda>b. [Write b, Ack]) bufs) @ [End]
            \<and> map (\<lambda>b. int (length b)) bufs = map (\<lambda>i. min c (B - i * c)) [j + 1..ceil_div B c - 1]"
    using Suc.prems j by (intro Suc.IH) (simp_all add: n_def)
  then obtain bufs where r: "sendChunk rnd werr B c n (j + 1) ((j + 1) * c) (k + nat (c div 4))
                = concat (map (\<lambda>b. [Write b, Ack]) bufs) @ [End]"
      and rl: "map (\<lambda>b. int (length b)) bufs = map (\<lambda>i. min c (B - i * c)) [j + 1..n - 1]"
    by (auto simp: n_def)
  have e: "(j + 1) * c = j * c + c" by (simp add: algebra_simps)
  have "sendChunk rnd werr B c n j (j * c) k
          = Write buf # Ack # sendChunk rnd werr B c n (j + 1) ((j + 1) * c) (k + nat (c div 4))"
    using j g ok full by (subst sendChunk.simps) (simp add: Let_def e)
  moreover have "[j..n - 1] = j # [j + 1..n - 1]" using j by (simp add: upto_rec1)
  ultimately show ?case using r rl l full unfolding n_def[symmetric]
    by (intro exI[of _ "buf # bufs"]) simp
qed

lemma sum_chunk_sizes:
  fixes c B :: int
  assumes "0 < c" "(n - 1) * c < B" "B \<le> n * c"
  shows "j \<le> n \<Longrightarrow> m = nat (n - j) \<Longrightarrow> j < n \<Longrightarrow>
    sum_list (map (\<lambda>i. min c (B - i * c)) [j..n - 1]) = B - j * c"
proof (induction m arbitrary: j)
  case 0
  then show ?case by simp
next
  case (Suc m)
  show ?case
  proof (cases "j = n - 1")
    case True
    then have u: "[j..n - 1] = [j]" by simp
    have "n = j + 1" using True by simp
    then have "n * c = j * c + c" by (simp add: algebra_simps)
    with assms have "B - j * c \<le> c" by simp
    then show ?thesis unfolding u by simp
  next
    case False
    with Suc.prems have j: "j < n - 1" by simp
    have "(j + 1) * c \<le> (n - 1) * c" using j assms by (intro mult_right_mono) simp_all
    with assms have full: "min c (B - j * c) = c" by (simp add: algebra_simps)
    have "sum_list (map (\<lambda>i. min c (B - i * c)) [j + 1..n - 1]) = B - (j + 1) * c"
      using Suc.prems j by (intro Suc.IH) simp_all
    moreover have "[j..n - 1] = j # [j + 1..n - 1]" using j by (simp add: upto_rec1)
    ultimately show ?thesis using full by (simp add: algebra_simps)
  qed
qed

lemma written_acked: "written (concat (map (\<lambda>b. [Write b, Ack]) bufs) @ [End]) = bufs"
  by (induction bufs) simp_all

lemma length_concat_int: "int (length (concat bufs)) = sum_list (map (\<lambda>b. int (length b)) bufs)"
  by (induction bufs) simp_all


lemma completed_acked: "completed (concat (map (\<lambda>b. [Write b, Ack]) bufs) @ [End])"
  by (simp add: completed_def)

lemma download_aligned_chunk:
  assumes sz: "parseInt qsize = Some (Num sz)" "1 \<le> sz" "sz \<le> 100"
    and cs: "js_or (parseInt qchunk) (Num (1024 * 1024)) = Num cs" "0 < cs" "4 dvd cs"
    and ok: "\<forall>i. \<not> werr i"
  shows "\<exists>t. download rnd werr qsize qchunk = Streamed (sz * 1048576) t
             \<and> completed t \<and> delivered t = sz * 1048576
             \<and> int (length (written t)) = ceil_div (sz * 1048576) cs"
proof -
  define B where "B = sz * 1048576"
  have B: "0 < B" "4 dvd B" using sz by (simp_all add: B_def)
  have bounds: "(ceil_div B cs - 1) * cs < B" "B \<le> ceil_div B cs * cs"
    using ceil_div_bounds[OF cs(2), of B] by simp_all
  have pos: "0 < ceil_div B cs"
  proof (rule ccontr)
    assume "\<not> 0 < ceil_div B cs"
    then have "ceil_div B cs * cs \<le> 0" using cs(2) by (simp add: mult_le_0_iff)
    with bounds B show False by simp
  qed
  obtain bufs where t: "sendChunk rnd werr B cs (ceil_div B cs) 0 0 0
                = concat (map (\<lambda>b. [Write b, Ack]) bufs) @ [End]"
      and l: "map (\<lambda>b. int (length b)) bufs = map (\<lambda>i. min cs (B - i * cs)) [0..ceil_div B cs - 1]"
    using sendChunk_aligned[where j = 0 and k = 0 and rnd = rnd and m = "nat (ceil_div B cs - 1)",
        OF cs(2,3) B(2) ok] pos by auto
  have d: "download rnd werr qsize qchunk = Streamed B (sendChunk rnd werr B cs (ceil_div B cs) 0 0 0)"
    using sz cs by (simp add: download_def js_or_def B_def Let_def mult.commute)
  have "sum_list (map (\<lambda>b. int (length b)) bufs) = B - 0 * cs"
    unfolding l using pos by (intro sum_chunk_sizes[OF cs(2) bounds]) simp_all
  then have del: "delivered (concat (map (\<lambda>b. [Write b, Ack]) bufs) @ [End]) = B"
    by (simp add: delivered_def written_acked length_concat_int)
  have "length (map (\<lambda>b. int (length b)) bufs) = length [0..ceil_div B cs - 1]"
    by (simp only: l length_map)
  then have cnt: "int (length bufs) = ceil_div B cs" using pos by simp
  show ?thesis unfolding d t B_def[symmetric]
    using del cnt by (simp add: completed_acked written_acked)
qed

lemma server_download_in_range:
  assumes "parseInt qsize = Some (Num sz)" "1 \<le> sz" "sz \<le> 20"
  shows "server_download qsize = Sent (sz * 1048576) (replicate (nat (sz * 1048576)) 88)"
  using assms by (simp add: server_download_def js_or_def js_min_def Buffer_alloc_def Let_def mult.commute)

section \<open>At most one chunk in flight\<close>

lemma in_flight_ok_simps:
  "in_flight_ok m [End]" "in_flight_ok m [Throw e]" "in_flight_ok m []"
  "int (length b) \<le> m \<Longrightarrow> in_flight_ok m [Write b, WriteError]"
  "int (length b) \<le> m \<Longrightarrow> in_flight_ok m rest \<Longrightarrow> in_flight_ok m (Write b # Ack # rest)"
  unfolding in_flight_ok_def by (auto simp: prefix_Cons)

lemma sendChunk_in_flight:
  "in_flight_ok c (sendChunk rnd werr B c n j sent k)"
proof (induction rnd werr B c n j sent k rule: sendChunk.induct)
  case (1 rnd werr bufferSize chunkSize chunkCount chunkIndex sentBytes k)
  show ?case
  proof (cases "chunkIndex \<ge> chunkCount")
    case True
    then show ?thesis by (subst sendChunk.simps) (simp add: in_flight_ok_simps)
  next
    case False
    define s where "s = min chunkSize (bufferSize - sentBytes)"
    show ?thesis
    proof (cases "generateRandomBuffer rnd k s")
      case (Inl e)
      with False show ?thesis by (subst sendChunk.simps) (simp add: in_flight_ok_simps s_def Let_def)
    next
      case (Inr r)
      obtain buf k' where r: "r = (buf, k')" by (cases r)
      have len: "int (length buf) \<le> chunkSize"
        using generateRandomBuffer_length[of rnd k s buf k'] Inr r by (simp add: s_def)
      show ?thesis
      proof (cases "werr (nat chunkIndex)")
        case True
        with False Inr r len show ?thesis
          by (subst sendChunk.simps) (simp add: in_flight_ok_simps s_def Let_def)
      next
        case nerr: False
        show ?thesis
        proof (cases "chunkIndex < chunkCount - 1")
          case True
          have "in_flight_ok chunkSize (sendChunk rnd werr bufferSize chunkSize chunkCount
                  (chunkIndex + 1) (sentBytes + s) k')"
            using "1.IH"[OF False _ _ _ _ nerr True, of "bufferSize - sentBytes" s "(buf, k')" buf k']
              Inr r by (simp add: s_def)
          with False Inr r len nerr True show ?thesis
            by (subst sendChunk.simps) (simp add: in_flight_ok_simps s_def Let_def)
        next
          case last: False
          with False Inr r len nerr show ?thesis
            by (subst sendChunk.simps) (simp add: in_flight_ok_simps s_def Let_def)
        qed
      qed
    qed
  qed
qed

lemma sendNextChunk_in_flight:
  "in_flight_ok 1048576 (sendNextChunk rnd d s k ticks)"
proof (induction ticks arbitrary: k)
  case Nil
  then show ?case by (simp add: in_flight_ok_simps)
next
  case (Cons tick ticks)
  obtain now werr where tick: "tick = (now, werr)" by (cases tick)
  show ?case
  proof (cases "generateRandomBuffer rnd k 1048576")
    case (Inl e)
    then show ?thesis by (simp add: tick in_flight_ok_simps)
  next
    case (Inr r)
    obtain buf k' where r: "r = (buf, k')" by (cases r)
    have len: "int (length buf) \<le> 1048576"
      using generateRandomBuffer_length[of rnd k 1048576 buf k'] Inr r by simp
    show ?thesis using Inr r len Cons.IH[of k'] by (simp add: tick in_flight_ok_simps)
  qed
qed

lemma download_trace_cases:
  assumes "download rnd werr qsize qchunk = Streamed n t"
  shows "(\<exists>cs. js_or (parseInt qchunk) (Num (1024 * 1024)) = Num cs
              \<and> t = sendChunk rnd werr n cs (ceil_div n cs) 0 0 0)
         \<or> (t = [End] \<and> (\<forall>cs. js_or (parseInt qchunk) (Num (1024 * 1024)) \<noteq> Num cs))"
  using assms by (auto simp: download_def Let_def split: jsnum.splits if_splits)

text \<open>
  C8: in every download session, size-bounded or duration-bounded, the sending loop has
  at most one chunk buffer in flight at any time. A chunk is generated in the call that
  writes it, and the next call is made only from the callback of that write, so after
  every prefix of the trace at most one buffer is waiting for its callback. Its length
  is at most the chunk size of the session (1048576 on the progressive endpoint),
  whatever the total size of the transfer.
\<close>

theorem one_chunk_in_flight:
  "(download rnd werr qsize qchunk = Streamed n t \<and> prefix p t \<longrightarrow>
      length (outstanding [] p) \<le> 1
      \<and> (\<forall>x \<in> set (outstanding [] p).
            le_js (int (length x)) (js_or (parseInt qchunk) (Num (1024 * 1024)))))
   \<and> (download_progressive rnd' qduration startTime ticks = Chunked t' \<and> prefix p' t' \<longrightarrow>
      length (outstanding [] p') \<le> 1
      \<and> (\<forall>x \<in> set (outstanding [] p'). int (length x) \<le> 1024 * 1024))"
proof (intro conjI impI)
  assume a: "download rnd werr qsize qchunk = Streamed n t \<and> prefix p t"
  from download_trace_cases[of rnd werr qsize qchunk n t] a
  consider (loop) cs where "js_or (parseInt qchunk) (Num (1024 * 1024)) = Num cs"
      "t = sendChunk rnd werr n cs (ceil_div n cs) 0 0 0"
    | (ended) "t = [End]" by blast
  then have "length (outstanding [] p) \<le> 1
      \<and> (\<forall>x \<in> set (outstanding [] p).
            le_js (int (length x)) (js_or (parseInt qchunk) (Num (1024 * 1024))))"
  proof cases
    case loop
    have "in_flight_ok cs t" unfolding loop(2) by (rule sendChunk_in_flight)
    with a have "length (outstanding [] p) \<le> 1
        \<and> (\<forall>x \<in> set (outstanding [] p). int (length x) \<le> cs)"
      unfolding in_flight_ok_def by blast
    then show ?thesis unfolding loop(1) by (simp add: le_js_def)
  next
    case ended
    with a have "outstanding [] p = []" by (auto simp: prefix_Cons)
    then show ?thesis by simp
  qed
  then show "length (outstanding [] p) \<le> 1"
    and "\<forall>x \<in> set (outstanding [] p).
            le_js (int (length x)) (js_or (parseInt qchunk) (Num (1024 * 1024)))" by simp_all
next
  assume a: "download_progressive rnd' qduration startTime ticks = Chunked t' \<and> prefix p' t'"
  then have "in_flight_ok 1048576 t'"
    using sendNextChunk_in_flight by (auto simp: download_progressive_def)
  with a have "length (outstanding [] p') \<le> 1
      \<and> (\<forall>x \<in> set (outstanding [] p'). int (length x) \<le> 1048576)"
    unfolding in_flight_ok_def by blast
  then show "length (outstanding [] p') \<le> 1"
    and "\<forall>x \<in> set (outstanding [] p'). int (length x) \<le> 1024 * 1024"
    by simp_all
qed

theorem one_chunk_in_flight_witness:
  "download zero_draws sink_accepts (Some ''1'') None
     = Streamed 1048576 (sendChunk zero_draws sink_accepts 1048576 1048576 1 0 0 0)
   \<and> prefix (take 1 (sendChunk zero_draws sink_accepts 1048576 1048576 1 0 0 0))
        (sendChunk zero_draws sink_accepts 1048576 1048576 1 0 0 0)
   \<and> length (outstanding [] (take 1 (sendChunk zero_draws sink_accepts 1048576 1048576 1 0 0 0))) \<le> 1
   \<and> download_progressive zero_draws (Some ''1000'') 0 [(0, False)]
     = Chunked (sendNextChunk zero_draws (Num 1000) 0 0 [(0, False)])
   \<and> prefix (take 1 (sendNextChunk zero_draws (Num 1000) 0 0 [(0, False)]))
        (sendNextChunk zero_draws (Num 1000) 0 0 [(0, False)])
   \<and> length (outstanding [] (take 1 (sendNextChunk zero_draws (Num 1000) 0 0 [(0, False)]))) \<le> 1"
proof -
  let ?t = "sendChunk zero_draws sink_accepts 1048576 1048576 1 0 0 0"
  let ?u = "sendNextChunk zero_draws (Num 1000) 0 0 [(0, False)]"
  have d: "download zero_draws sink_accepts (Some ''1'') None = Streamed 1048576 ?t"
    by (simp add: download_def parseInt_eval_simps js_or_def ceil_div_def)
  have e: "download_progressive zero_draws (Some ''1000'') 0 [(0, False)] = Chunked ?u"
    by (simp add: download_progressive_def parseInt_eval_simps js_or_def)
  have p: "prefix (take 1 ?t) ?t" "prefix (take 1 ?u) ?u" by (rule take_is_prefix)+
  from one_chunk_in_flight[of zero_draws sink_accepts "Some ''1''" None 1048576 ?t "take 1 ?t"
      zero_draws "Some ''1000''" 0 "[(0, False)]" ?u "take 1 ?u"] d e p
  show ?thesis by blast
qed

section \<open>The payload generator on a size that is not a multiple of four\<close>

text \<open>
  C3 says that the random payload generator succeeds for every non-negative size and
  returns a buffer of exactly that many bytes. The code fills the buffer four bytes at
  a time, so for a size that is not a multiple of four its last \<open>writeUInt32LE\<close> runs
  past the end of the buffer and throws: \<open>generateRandomBuffer(3)\<close> throws a RangeError
  and returns no buffer. (For the multiples of four, zero included, it returns a buffer
  of that length: \<open>generateRandomBuffer_aligned\<close>.)
\<close>

theorem generateRandomBuffer_three_bytes_throws:
  "generateRandomBuffer rnd k 3 = Inl RangeError"
  by (rule generateRandomBuffer_unaligned) simp

section \<open>The download handler on a chunk size it does not validate\<close>

text \<open>
  C1 says that a download with a valid size that runs to completion delivers exactly
  size times 1048576 bytes, with the Content-Length header set to that value. The
  handler validates \<open>size\<close> but not \<open>chunk\<close>: for \<open>GET /download?size=5&chunk=-1\<close> it
  declares Content-Length 5242880, computes a negative \<open>chunkCount\<close>, and
  \<open>sendChunk(0)\<close> ends the response at once. The response is completed and carries no
  byte.
\<close>

theorem download_negative_chunk_ends_empty:
  "download rnd werr (Some ''5'') (Some ''-1'') = Streamed 5242880 [End]
   \<and> completed [End] \<and> delivered [End] = 0"
  by (simp add: download_def parseInt_eval_simps js_or_def ceil_div_def sendChunk.simps
        completed_def delivered_def)

text \<open>
  C2 says that every size-bounded session writes its chunks in increasing offset order
  without gaps or duplicates, each of \<open>min(chunkSize, remaining)\<close> bytes, and that the
  chunks written add up to the declared total. For \<open>GET /download?size=1&chunk=-4\<close>
  the session declares 1048576 bytes and its loop writes no chunk at all before it ends
  the response, so the chunks written add up to 0.
\<close>

theorem download_negative_chunk_writes_nothing:
  "download rnd werr (Some ''1'') (Some ''-4'') = Streamed 1048576 [End] \<and> written [End] = []"
  by (simp add: download_def parseInt_eval_simps js_or_def ceil_div_def sendChunk.simps)

text \<open>
  C9 says that with \<open>bufferSize \<ge> 1\<close> and \<open>chunkSize \<ge> 1\<close> the \<open>sendChunk\<close> recursion
  performs exactly \<open>chunkCount = ceil(bufferSize / chunkSize)\<close> chunk writes and then
  ends the stream. For \<open>GET /download?size=1&chunk=3\<close> (\<open>bufferSize\<close> 1048576,
  \<open>chunkSize\<close> 3, \<open>chunkCount\<close> 349526) the first call asks the generator for 3 bytes,
  the generator throws, and the loop stops with no write and no \<open>res.end()\<close>.
\<close>

theorem download_unaligned_chunk_throws:
  "download rnd werr (Some ''1'') (Some ''3'') = Streamed 1048576 [Throw RangeError]
   \<and> ceil_div 1048576 3 = 349526"
  by (simp add: download_def parseInt_eval_simps js_or_def ceil_div_def sendChunk.simps
        generateRandomBuffer_unaligned)

section \<open>Oversized downloads\<close>

text \<open>
  C4 as it is stated, for every download request: a size above the configured maximum
  gets a 400-class error and is never clamped. In server.js the handler takes
  \<open>Math.min(size, 20)\<close>: \<open>GET /download?size=500\<close> is answered with a body of
  20971520 bytes and no error.
\<close>

theorem server_download_clamps_oversized:
  "server_download (Some ''500'') = Sent 20971520 (replicate 20971520 88)"
  by (simp add: server_download_def parseInt_eval_simps js_or_def js_min_def Buffer_alloc_def)

text \<open>
  C4, amended: on the chunked server a size above 100 is answered with status 400 and
  the error text that names the 100MB maximum, and no stream is started; server.js
  clamps a size above 20 to 20 MB and sends 20971520 bytes.
\<close>

theorem oversized_download:
  "parseInt qsize = Some sz \<Longrightarrow>
     (js_gt sz 100 \<longrightarrow>
        download rnd werr qsize qchunk = JsonError 400 ''Maximum download size is 100MB'')
     \<and> (js_gt sz 20 \<longrightarrow> server_download qsize = Sent 20971520 (replicate 20971520 88))"
  by (cases sz) (auto simp: js_gt_def download_def server_download_def js_or_def js_min_def
        Buffer_alloc_def Let_def)

theorem oversized_download_witness:
  "parseInt (Some ''500'') = Some (Num 500) \<and> js_gt (Num 500) 100 \<and> js_gt (Num 500) 20
   \<and> download zero_draws sink_accepts (Some ''500'') None
       = JsonError 400 ''Maximum download size is 100MB''
   \<and> server_download (Some ''500'') = Sent 20971520 (replicate 20971520 88)"
  using oversized_download[of "Some ''500''" "Num 500" zero_draws sink_accepts None]
  by (simp add: parseInt_eval_simps js_gt_def)

section \<open>The default size\<close>

lemma digitVal_not_digit: "\<not> is_digit c \<Longrightarrow> digitVal 10 c = None"
  by (auto simp: digitVal_def is_digit_def Let_def)

lemma parseDigits_no_digit:
  "(case s of [] \<Rightarrow> True | c # cs \<Rightarrow> \<not> is_digit c) \<Longrightarrow> parseDigits 10 None s = None"
  by (cases s) (simp_all add: digitVal_not_digit)

lemma no_digit_no_hex_prefix:
  "(case s of [] \<Rightarrow> True | c # cs \<Rightarrow> \<not> is_digit c) \<Longrightarrow> take 2 s \<noteq> ''0x'' \<and> take 2 s \<noteq> ''0X''"
  by (cases s) (auto simp: is_digit_def)

lemma parseInt_non_numeric:
  assumes "non_numeric s"
  shows "parseInt (Some s) = None"
proof -
  define S1 where "S1 = strip_sign (dropWhile isWhiteSpace s)"
  have n: "case S1 of [] \<Rightarrow> True | c # cs \<Rightarrow> \<not> is_digit c"
    using assms by (simp add: non_numeric_def S1_def)
  have "parseDigits 10 None S1 = None" using n by (rule parseDigits_no_digit)
  moreover have "take 2 S1 \<noteq> ''0x'' \<and> take 2 S1 \<noteq> ''0X''" using n by (rule no_digit_no_hex_prefix)
  ultimately show ?thesis
    unfolding parseInt_def Let_def option.case strip_sign_def[symmetric] S1_def[symmetric]
    by simp
qed

lemma parseDigits_zeros:
  "\<forall>c \<in> set s. c = CHR ''0'' \<Longrightarrow> parseDigits 10 (Some 0) s = Some 0"
  by (induction s) (simp_all add: digitVal_def)

lemma parseInt_zero_text:
  assumes "zero_text s"
  shows "parseInt (Some s) = Some (Num 0)"
proof -
  from assms obtain cs where s: "s = CHR ''0'' # cs" and z: "\<forall>c \<in> set cs. c = CHR ''0''"
    by (cases s) (auto simp: zero_text_def)
  have w: "dropWhile isWhiteSpace s = s" by (simp add: s isWhiteSpace_def)
  have h: "take 2 s \<noteq> ''0x'' \<and> take 2 s \<noteq> ''0X''" using z by (cases cs) (auto simp: s)
  have t: "take 1 s = ''0''" by (simp add: s)
  have pd: "parseDigits 10 None s = Some 0" using parseDigits_zeros[OF z] by (simp add: s digitVal_def)
  show ?thesis unfolding parseInt_def Let_def option.case w using t h pd
    by (simp add: toNumber_def)
qed

lemma parseInt_falsy_texts:
  "parseInt None = None"
  "parseInt (Some []) = None"
  "parseInt (Some ''abc'') = None"
  "parseInt (Some ''0x'') = None"
  "parseInt (Some ''0'') = Some (Num 0)"
  "parseInt (Some ''-0'') = Some (Num 0)"
  "parseInt (Some ''+0'') = Some (Num 0)"
  "parseInt (Some '' 0'') = Some (Num 0)"
  "parseInt (Some ''0.5'') = Some (Num 0)"
  by (simp_all add: parseInt_def isWhiteSpace_def digitVal_def toNumber_def Let_def)

text \<open>
  Whenever \<open>parseInt\<close> gives \<open>NaN\<close> or a zero for the \<open>size\<close> parameter, \<open>||\<close>
  substitutes the default: the chunked server answers exactly as for \<open>size=10\<close> and
  declares 10485760 bytes, server.js answers as for \<open>size=5\<close> with 5242880 bytes, and
  the request is not rejected. With a positive chunk size that is a multiple of four and
  a sink that accepts every write the 10485760 bytes are delivered.
\<close>

lemma default_size_substituted:
  assumes "parseInt q = None \<or> parseInt q = Some (Num 0)"
  shows "download rnd werr q qchunk = download rnd werr (Some ''10'') qchunk
       \<and> (\<exists>t. download rnd werr q qchunk = Streamed 10485760 t)
       \<and> server_download q = server_download (Some ''5'')
       \<and> server_download q = Sent 5242880 (replicate 5242880 88)"
proof -
  have ten: "js_or (parseInt q) (Num 10) = Num 10" and five: "js_or (parseInt q) (Num 5) = Num 5"
    using assms by (auto simp: js_or_def)
  have ten': "js_or (parseInt (Some ''10'')) (Num 10) = Num 10"
    and five': "js_or (parseInt (Some ''5'')) (Num 5) = Num 5"
    by (simp_all add: parseInt_eval_simps js_or_def)
  have a: "download rnd werr q qchunk = download rnd werr (Some ''10'') qchunk"
    unfolding download_def ten ten' ..
  have b: "\<exists>t. download rnd werr (Some ''10'') qchunk = Streamed 10485760 t"
    unfolding download_def ten' by (simp add: Let_def split: jsnum.splits)
  have d: "server_download q = server_download (Some ''5'')"
    unfolding server_download_def five five' ..
  have e: "server_download (Some ''5'') = Sent 5242880 (replicate 5242880 88)"
    using server_download_in_range[of "Some ''5''" 5] by (simp add: parseInt_eval_simps)
  show ?thesis using a b d e by simp
qed

lemma default_size_delivered:
  assumes "parseInt q = None \<or> parseInt q = Some (Num 0)"
    and "js_or (parseInt qchunk) (Num (1024 * 1024)) = Num cs" and "0 < cs" and "4 dvd cs"
    and "\<forall>i. \<not> werr i"
  shows "\<exists>t. download rnd werr q qchunk = Streamed 10485760 t
             \<and> completed t \<and> delivered t = 10485760"
proof -
  have "\<exists>t. download rnd werr (Some ''10'') qchunk = Streamed (10 * 1048576) t
             \<and> completed t \<and> delivered t = 10 * 1048576
             \<and> int (length (written t)) = ceil_div (10 * 1048576) cs"
    using assms(2-5) by (intro download_aligned_chunk) (simp_all add: parseInt_eval_simps)
  then show ?thesis using default_size_substituted[OF assms(1), of rnd werr qchunk] by auto
qed

text \<open>
  C10 says that for a \<open>size\<close> parameter that is absent, non-numeric or 0 the handler
  substitutes the default size rather than rejecting the request or returning an empty
  stream. The default is substituted, but the stream can still be empty: for
  \<open>GET /download?chunk=-1\<close>, with no \<open>size\<close>, the handler declares the 10485760
  bytes of the default, computes a negative \<open>chunkCount\<close> from the chunk size it does
  not validate, and ends the response without a byte.
\<close>

theorem download_default_size_negative_chunk_empty:
  "download rnd werr None (Some ''-1'') = Streamed 10485760 [End]
   \<and> completed [End] \<and> delivered [End] = 0"
  by (simp add: download_def parseInt_eval_simps js_or_def ceil_div_def sendChunk.simps
        completed_def delivered_def)

section \<open>The progressive download and its deadline\<close>








section \<open>What the upload handlers report\<close>

lemma digitVal_decimal_digit: "k < 10 \<Longrightarrow> digitVal 10 (char_of (48 + k)) = Some k"
  by (simp add: digitVal_def Let_def)

lemma is_digit_decimal_digit: "k < 10 \<Longrightarrow> is_digit (char_of (48 + k :: nat))"
  by (simp add: is_digit_def)

lemma decimal_digits: "decimal n \<noteq> [] \<and> (\<forall>c \<in> set (decimal n). is_digit c)"
proof (induction n rule: decimal.induct)
  case (1 n)
  show ?case
  proof (cases "n < 10")
    case True
    then show ?thesis by (subst (1 2) decimal.simps) (simp add: is_digit_decimal_digit)
  next
    case False
    with 1 show ?thesis by (subst (1 2) decimal.simps) (simp add: is_digit_decimal_digit)
  qed
qed

lemma decimal_nonempty: "decimal n \<noteq> []"
  using decimal_digits[of n] by simp

lemma digitVal_is_digit: "is_digit c \<Longrightarrow> \<exists>d. digitVal 10 c = Some d"
  by (auto simp: digitVal_def is_digit_def Let_def)

lemma parseDigits_append:
  "\<forall>c \<in> set xs. is_digit c \<Longrightarrow>
   parseDigits 10 acc (xs @ ys) = (if xs = [] then parseDigits 10 acc ys
                                    else parseDigits 10 (parseDigits 10 acc xs) ys)"
proof (induction xs arbitrary: acc)
  case Nil
  then show ?case by simp
next
  case (Cons x xs)
  then obtain d where d: "digitVal 10 x = Some d" using digitVal_is_digit[of x] by auto
  show ?case using Cons d by (cases xs) simp_all
qed

lemma parseDigits_decimal: "parseDigits 10 None (decimal n) = Some n"
proof (induction n rule: decimal.induct)
  case (1 n)
  show ?case
  proof (cases "n < 10")
    case True
    then show ?thesis by (subst decimal.simps) (simp add: digitVal_decimal_digit)
  next
    case False
    have dg: "decimal (n div 10) \<noteq> []" "\<forall>c \<in> set (decimal (n div 10)). is_digit c"
      using decimal_digits[of "n div 10"] by simp_all
    have "parseDigits 10 None (decimal (n div 10) @ [char_of (48 + n mod 10)])
            = parseDigits 10 (parseDigits 10 None (decimal (n div 10))) [char_of (48 + n mod 10)]"
      using parseDigits_append[OF dg(2), of None "[char_of (48 + n mod 10)]"] dg(1) by simp
    also have "\<dots> = Some (10 * (n div 10) + n mod 10)"
      using 1[OF False] by (simp add: digitVal_decimal_digit)
    finally show ?thesis using False by (subst decimal.simps) simp
  qed
qed

lemma is_digit_plain:
  "is_digit c \<Longrightarrow> \<not> isWhiteSpace c \<and> c \<noteq> CHR ''+'' \<and> c \<noteq> CHR ''-'' \<and> c \<noteq> CHR ''x'' \<and> c \<noteq> CHR ''X''"
  by (auto simp: is_digit_def isWhiteSpace_def)

lemma parseInt_decimal: "parseInt (Some (decimal n)) = Some (toNumber (int n))"
proof -
  obtain c cs where s: "decimal n = c # cs" and dc: "is_digit c" and dcs: "\<forall>x \<in> set cs. is_digit x"
    using decimal_digits[of n] by (cases "decimal n") auto
  have w: "dropWhile isWhiteSpace (decimal n) = decimal n"
    using is_digit_plain[OF dc] by (simp add: s)
  have t1: "take 1 (decimal n) \<noteq> ''+''" "take 1 (decimal n) \<noteq> ''-''"
    using is_digit_plain[OF dc] by (simp_all add: s)
  have t2: "take 2 (decimal n) \<noteq> ''0x''" "take 2 (decimal n) \<noteq> ''0X''"
  proof -
    show "take 2 (decimal n) \<noteq> ''0x''"
      using dcs is_digit_plain by (cases cs) (auto simp: s)
    show "take 2 (decimal n) \<noteq> ''0X''"
      using dcs is_digit_plain by (cases cs) (auto simp: s)
  qed
  show ?thesis unfolding parseInt_def Let_def option.case w
    using t1 t2 parseDigits_decimal[of n] by simp
qed

text \<open>
  C7 as it is stated, for every upload request: a payload of exactly N bytes is
  reported as N, whatever wrapper the transport applies. The first server installs
  \<open>express.json\<close> only and reports \<open>JSON.stringify(req.body).length\<close>: a payload of
  5 bytes sent as \<open>application/octet-stream\<close> is not parsed, \<open>req.body\<close> is \<open>{}\<close> and
  the reply says 2 (where the library leaves \<open>req.body\<close> undefined, the handler throws
  a TypeError instead).
\<close>

theorem upload_v1_reports_text_length:
  "upload_v1_request (inflates_to []) no_json EmptyObject
      \<lparr>contentType = ''application/octet-stream'', contentEncoding = None,
       framing = WithContentLength, writes = [[1, 2, 3, 4, 5]]\<rparr> = UploadReply (Some (Num 2))
   \<and> upload_v1_request (inflates_to []) no_json Undefined
      \<lparr>contentType = ''application/octet-stream'', contentEncoding = None,
       framing = WithContentLength, writes = [[1, 2, 3, 4, 5]]\<rparr> = UploadThrow TypeError"
  by (simp add: upload_v1_request_def express_json_def hasBody_def upload_v1_def JSON_stringify_def)

text \<open>
  C7, amended: on the servers that read the raw body, an upload of media type
  \<open>application/octet-stream\<close> that carries a body (it has a Content-Length or a
  Transfer-Encoding header) and whose payload has N bytes is reported as N, whether the
  client sent it in one write or in many, with a Content-Length header or chunked, and
  plain or compressed with gzip or deflate (the wrapper is undone before the handler
  counts): by the chunked server for N up to its limit of 100 MB, by server.js for N up
  to its limit of 50 MB. One case differs on server.js, whose handler falls back to the
  Content-Length header when \<open>body.length\<close> is 0: an empty payload sent compressed with
  a Content-Length header is reported as the number of bytes on the wire. Sent plain,
  the payload is the bytes written, so N is the sum of the lengths of the writes.
\<close>

theorem upload_reports_payload_length:
  assumes "contentType req = ''application/octet-stream''" and "hasBody req"
    and "decode_body inflate req = Inr p"
  shows "(length p \<le> 100 * 1024 * 1024 \<longrightarrow>
            upload_request inflate unparsed req = UploadReply (Some (Num (int (length p)))))
       \<and> (length p \<le> 50 * 1024 * 1024 \<longrightarrow>
            server_upload_request inflate parse unparsed req
              = UploadReply (Some
                  (if p = [] \<and> \<not> unencoded req \<and> framing req = WithContentLength
                   then toNumber (int (length (concat (writes req))))
                   else Num (int (length p)))))
       \<and> (unencoded req \<longrightarrow> length p = sum_list (map length (writes req)))"
proof (intro conjI impI)
  have raw: "express_raw inflate limit unparsed req = Inr (Buffer p)" if "length p \<le> limit" for limit
    using assms that by (simp add: express_raw_def read_body_def)
  {
    assume "length p \<le> 100 * 1024 * 1024"
    then show "upload_request inflate unparsed req = UploadReply (Some (Num (int (length p))))"
      using raw[of "100 * 1024 * 1024"]
      by (simp add: upload_request_def upload_def prop_length_def)
  }
  {
    assume u: "unencoded req"
    with assms(3) have "p = concat (writes req)"
      by (auto simp: decode_body_def unencoded_def Let_def)
    then show "length p = sum_list (map length (writes req))" by (simp add: length_concat)
  }
  {
    assume l: "length p \<le> 50 * 1024 * 1024"
    have e: "server_upload_request inflate parse unparsed req
               = server_upload (Buffer p) (contentLength req)"
      using raw[of "50 * 1024 * 1024"] l assms(1) by (simp add: server_upload_request_def)
    show "server_upload_request inflate parse unparsed req
              = UploadReply (Some
                  (if p = [] \<and> \<not> unencoded req \<and> framing req = WithContentLength
                   then toNumber (int (length (concat (writes req))))
                   else Num (int (length p))))"
    proof (cases "p = []")
      case False
      then show ?thesis unfolding e by (simp add: server_upload_def prop_length_def)
    next
      case True
      show ?thesis
      proof (cases "framing req = WithContentLength")
        case cl: True
        have h: "contentLength req = Some (decimal (length (concat (writes req))))"
          using cl by (simp add: contentLength_def)
        have ne: "decimal (length (concat (writes req))) \<noteq> []" using decimal_digits by simp
        have r: "server_upload (Buffer p) (contentLength req)
                   = UploadReply (Some (toNumber (int (length (concat (writes req))))))"
          using True ne unfolding h
          by (simp add: server_upload_def prop_length_def parseInt_decimal)
        show ?thesis
        proof (cases "unencoded req")
          case False
          with True cl r show ?thesis unfolding e by simp
        next
          case u: True
          with assms(3) have "p = concat (writes req)"
      by (auto simp: decode_body_def unencoded_def Let_def)
          with True have "length (concat (writes req)) = 0" by simp
          with True cl u r show ?thesis unfolding e by (simp add: toNumber_def)
        qed
      next
        case ncl: False
        then have h: "contentLength req = None"
          by (cases "framing req") (simp_all add: contentLength_def)
        show ?thesis using True ncl unfolding e h
          by (simp add: server_upload_def prop_length_def)
      qed
    qed
  }
qed


theorem upload_reports_payload_length_witness:
  "decode_body (inflates_to [])
      \<lparr>contentType = ''application/octet-stream'', contentEncoding = None,
       framing = ChunkedTransfer, writes = [[1, 2], [3, 4, 5]]\<rparr> = Inr [1, 2, 3, 4, 5]
   \<and> upload_request (inflates_to []) EmptyObject
      \<lparr>contentType = ''application/octet-stream'', contentEncoding = None,
       framing = ChunkedTransfer, writes = [[1, 2], [3, 4, 5]]\<rparr> = UploadReply (Some (Num 5))
   \<and> server_upload_request (inflates_to []) no_json EmptyObject
      \<lparr>contentType = ''application/octet-stream'', contentEncoding = None,
       framing = ChunkedTransfer, writes = [[1, 2], [3, 4, 5]]\<rparr> = UploadReply (Some (Num 5))
   \<and> server_upload_request (inflates_to []) no_json EmptyObject
      \<lparr>contentType = ''application/octet-stream'', contentEncoding = None,
       framing = WithContentLength, writes = []\<rparr> = UploadReply (Some (Num 0))
   \<and> upload_request (inflates_to (replicate 1000 0)) EmptyObject
      \<lparr>contentType = ''application/octet-stream'', contentEncoding = Some ''deflate'',
       framing = WithContentLength,
       writes = [[0x78, 0x9c, 0x63, 0x60, 0x18, 0x05, 0xa3, 0x60, 0x14, 0x0c, 0x77, 0x00, 0x00,
                  0x03, 0xe8, 0x00, 0x01]]\<rparr> = UploadReply (Some (Num 1000))
   \<and> server_upload_request (inflates_to (replicate 1000 0)) no_json EmptyObject
      \<lparr>contentType = ''application/octet-stream'', contentEncoding = Some ''deflate'',
       framing = WithContentLength,
       writes = [[0x78, 0x9c, 0x63, 0x60, 0x18, 0x05, 0xa3, 0x60, 0x14, 0x0c, 0x77, 0x00, 0x00,
                  0x03, 0xe8, 0x00, 0x01]]\<rparr> = UploadReply (Some (Num 1000))"
proof -
  let ?r1 = "\<lparr>contentType = ''application/octet-stream'', contentEncoding = None,
       framing = ChunkedTransfer, writes = [[1, 2], [3, 4, 5 :: byte]]\<rparr>"
  let ?r0 = "\<lparr>contentType = ''application/octet-stream'', contentEncoding = None,
       framing = WithContentLength, writes = ([] :: byte list list)\<rparr>"
  let ?r17 = "\<lparr>contentType = ''application/octet-stream'', contentEncoding = Some ''deflate'',
       framing = WithContentLength,
       writes = [[0x78, 0x9c, 0x63, 0x60, 0x18, 0x05, 0xa3, 0x60, 0x14, 0x0c, 0x77, 0x00, 0x00,
                  0x03, 0xe8, 0x00, 0x01 :: byte]]\<rparr>"
  have d1: "decode_body (inflates_to []) ?r1 = Inr [1, 2, 3, 4, 5]"
    by (simp add: decode_body_def unencoded_def)
  have d0: "decode_body (inflates_to []) ?r0 = Inr []"
    by (simp add: decode_body_def unencoded_def)
  have d17: "decode_body (inflates_to (replicate 1000 0)) ?r17 = Inr (replicate 1000 0)"
    by (simp add: decode_body_def unencoded_def inflates_to_def)
  from upload_reports_payload_length[where req = ?r1 and inflate = "inflates_to []"
      and p = "[1, 2, 3, 4, 5]" and unparsed = EmptyObject and parse = no_json] d1
  have a: "upload_request (inflates_to []) EmptyObject ?r1 = UploadReply (Some (Num 5))"
    "server_upload_request (inflates_to []) no_json EmptyObject ?r1 = UploadReply (Some (Num 5))"
    by (simp_all add: hasBody_def)
  from upload_reports_payload_length[where req = ?r0 and inflate = "inflates_to []"
      and p = "[]" and unparsed = EmptyObject and parse = no_json] d0
  have b: "server_upload_request (inflates_to []) no_json EmptyObject ?r0 = UploadReply (Some (Num 0))"
    by (simp add: hasBody_def unencoded_def)
  from upload_reports_payload_length[where req = ?r17 and inflate = "inflates_to (replicate 1000 0)"
      and p = "replicate 1000 0" and unparsed = EmptyObject and parse = no_json] d17
  have c: "upload_request (inflates_to (replicate 1000 0)) EmptyObject ?r17 = UploadReply (Some (Num 1000))"
    "server_upload_request (inflates_to (replicate 1000 0)) no_json EmptyObject ?r17
       = UploadReply (Some (Num 1000))"
    by (simp_all add: hasBody_def)
  from d1 a b c show ?thesis by simp
qed

text \<open>
  The case set apart above, at a concrete request: the 20 bytes of a gzip stream of the
  empty payload, sent to server.js with \<open>Content-Length: 20\<close>, are reported as 20.
\<close>

lemma server_upload_empty_compressed:
  "server_upload_request (inflates_to []) no_json EmptyObject
      \<lparr>contentType = ''application/octet-stream'', contentEncoding = Some ''gzip'',
       framing = WithContentLength,
       writes = [[0x1f, 0x8b, 0x08, 0, 0, 0, 0, 0, 0, 0x03, 0x03, 0, 0, 0, 0, 0, 0, 0, 0, 0]]\<rparr>
     = UploadReply (Some (Num 20))"
  by (simp add: decimal_nonempty server_upload_request_def express_raw_def read_body_def decode_body_def
        unencoded_def hasBody_def inflates_to_def server_upload_def prop_length_def
        contentLength_def parseInt_decimal toNumber_def)


section \<open>The rate limiter within a window and after it\<close>

lemma admit_in_window:
  assumes "registry clientKey = Some \<lparr>windowStartedAt = began, count = c\<rparr>" and "t - began \<le> windowMs"
  shows "admit windowMs maxRequests t clientKey registry =
     ((if c + 1 > maxRequests then \<lparr>allowed = False, retryAfter = Some (began + windowMs - t)\<rparr>
       else \<lparr>allowed = True, retryAfter = None\<rparr>),
      registry(clientKey \<mapsto> \<lparr>windowStartedAt = began, count = c + 1\<rparr>))"
  using assms by (simp add: admit_def Let_def)

lemma admit_fresh:
  assumes "registry clientKey = None" and "0 \<le> windowMs"
  shows "admit windowMs maxRequests t clientKey registry =
     ((if 1 > maxRequests then \<lparr>allowed = False, retryAfter = Some (t + windowMs - t)\<rparr>
       else \<lparr>allowed = True, retryAfter = None\<rparr>),
      registry(clientKey \<mapsto> \<lparr>windowStartedAt = t, count = 1\<rparr>))"
  using assms by (simp add: admit_def Let_def)

lemma admit_expired:
  assumes "registry clientKey = Some \<lparr>windowStartedAt = began, count = c\<rparr>" and "windowMs < t - began"
  shows "admit windowMs maxRequests t clientKey registry =
     ((if 1 > maxRequests then \<lparr>allowed = False, retryAfter = Some (t + windowMs - t)\<rparr>
       else \<lparr>allowed = True, retryAfter = None\<rparr>),
      registry(clientKey \<mapsto> \<lparr>windowStartedAt = t, count = 1\<rparr>))"
  using assms by (simp add: admit_def Let_def)

lemma admit_all_in_window:
  assumes "registry clientKey = Some \<lparr>windowStartedAt = began, count = c\<rparr>"
    and "\<forall>t \<in> set ts. began \<le> t \<and> t < began + windowMs"
  shows "length (fst (admit_all windowMs maxRequests clientKey ts registry)) = length ts
       \<and> (\<forall>i < length ts.
            allowed (fst (admit_all windowMs maxRequests clientKey ts registry) ! i)
              = (c + i + 1 \<le> maxRequests)
            \<and> (maxRequests < c + i + 1 \<longrightarrow>
                 retryAfter (fst (admit_all windowMs maxRequests clientKey ts registry) ! i)
                   = Some (began + windowMs - ts ! i)))
       \<and> snd (admit_all windowMs maxRequests clientKey ts registry) clientKey
           = Some \<lparr>windowStartedAt = began, count = c + length ts\<rparr>"
  using assms
proof (induction ts arbitrary: c registry)
  case Nil
  then show ?case by simp
next
  case (Cons t ts)
  let ?reg = "registry(clientKey \<mapsto> \<lparr>windowStartedAt = began, count = c + 1\<rparr>)"
  let ?d = "if c + 1 > maxRequests then \<lparr>allowed = False, retryAfter = Some (began + windowMs - t)\<rparr>
       else \<lparr>allowed = True, retryAfter = None\<rparr>"
  have a: "admit windowMs maxRequests t clientKey registry = (?d, ?reg)"
    using Cons.prems by (intro admit_in_window) simp_all
  have ih: "length (fst (admit_all windowMs maxRequests clientKey ts ?reg)) = length ts
       \<and> (\<forall>i < length ts.
            allowed (fst (admit_all windowMs maxRequests clientKey ts ?reg) ! i)
              = ((c + 1) + i + 1 \<le> maxRequests)
            \<and> (maxRequests < (c + 1) + i + 1 \<longrightarrow>
                 retryAfter (fst (admit_all windowMs maxRequests clientKey ts ?reg) ! i)
                   = Some (began + windowMs - ts ! i)))
       \<and> snd (admit_all windowMs maxRequests clientKey ts ?reg) clientKey
           = Some \<lparr>windowStartedAt = began, count = (c + 1) + length ts\<rparr>"
    using Cons.prems by (intro Cons.IH) simp_all
  obtain ds r where r: "admit_all windowMs maxRequests clientKey ts ?reg = (ds, r)"
    by (cases "admit_all windowMs maxRequests clientKey ts ?reg")
  have e: "admit_all windowMs maxRequests clientKey (t # ts) registry = (?d # ds, r)"
    by (simp only: admit_all.simps a Let_def prod.case r)
  show ?case unfolding e using ih unfolding r
    by (auto simp: nth_Cons split: nat.splits)
qed


text \<open>
  C5: a client unknown to the limiter makes \<open>max + 1\<close> counted requests, all within
  one window (from the first request on, less than the window length later). The first
  \<open>max\<close> are allowed, the last is refused with a positive \<open>retryAfter\<close>, and a request
  made after the window has elapsed is allowed again, with the counter of the window
  back at 1. The window length is positive and \<open>max\<close> at least 1, as in every
  limiter the servers configure.
\<close>

theorem rate_limit_window:
  assumes W: "0 < windowMs" and mx: "1 \<le> maxRequests" and fresh: "registry clientKey = None"
    and len: "length ts = maxRequests + 1"
    and win: "\<forall>t \<in> set ts. hd ts \<le> t \<and> t < hd ts + windowMs"
    and later: "hd ts + windowMs < t'"
  shows "(\<forall>i < maxRequests. allowed (fst (admit_all windowMs maxRequests clientKey ts registry) ! i))
       \<and> \<not> allowed (fst (admit_all windowMs maxRequests clientKey ts registry) ! maxRequests)
       \<and> (\<exists>r. retryAfter (fst (admit_all windowMs maxRequests clientKey ts registry) ! maxRequests)
                 = Some r \<and> 0 < r)
       \<and> allowed (fst (admit windowMs maxRequests t' clientKey
                         (snd (admit_all windowMs maxRequests clientKey ts registry))))
       \<and> map_option count
            (snd (admit windowMs maxRequests t' clientKey
                    (snd (admit_all windowMs maxRequests clientKey ts registry))) clientKey)
           = Some 1"
proof -
  from len obtain t1 rest where ts: "ts = t1 # rest" and lr: "length rest = maxRequests"
    by (cases ts) simp_all
  let ?reg1 = "registry(clientKey \<mapsto> \<lparr>windowStartedAt = t1, count = 1\<rparr>)"
  let ?d1 = "\<lparr>allowed = True, retryAfter = None\<rparr>"
  have a1: "admit windowMs maxRequests t1 clientKey registry = (?d1, ?reg1)"
    using admit_fresh[where registry = registry and clientKey = clientKey and windowMs = windowMs
        and maxRequests = maxRequests and t = t1] fresh W mx by simp
  have r1: "?reg1 clientKey = Some \<lparr>windowStartedAt = t1, count = 1\<rparr>" by simp
  have wr: "\<forall>t \<in> set rest. t1 \<le> t \<and> t < t1 + windowMs" using win by (simp add: ts)
  obtain ds reg2 where r: "admit_all windowMs maxRequests clientKey rest ?reg1 = (ds, reg2)"
    by (cases "admit_all windowMs maxRequests clientKey rest ?reg1")
  from admit_all_in_window[where registry = "?reg1" and clientKey = clientKey and began = t1
      and c = 1 and ts = rest and windowMs = windowMs and maxRequests = maxRequests] r1 wr r
  have lds: "length ds = length rest"
    and al: "\<forall>i < length rest. allowed (ds ! i) = (1 + i + 1 \<le> maxRequests)
            \<and> (maxRequests < 1 + i + 1 \<longrightarrow> retryAfter (ds ! i) = Some (t1 + windowMs - rest ! i))"
    and fin: "reg2 clientKey = Some \<lparr>windowStartedAt = t1, count = 1 + length rest\<rparr>"
    by simp_all
  have e: "admit_all windowMs maxRequests clientKey ts registry = (?d1 # ds, reg2)"
    unfolding ts by (simp only: admit_all.simps a1 Let_def prod.case r)
  have first: "\<forall>i < maxRequests. allowed ((?d1 # ds) ! i)"
  proof (intro allI impI)
    fix i assume i: "i < maxRequests"
    show "allowed ((?d1 # ds) ! i)"
    proof (cases i)
      case 0
      then show ?thesis by simp
    next
      case (Suc j)
      with i lr have "j < length rest" "1 + j + 1 \<le> maxRequests" by simp_all
      with al have "allowed (ds ! j)" by blast
      with Suc show ?thesis by simp
    qed
  qed
  obtain m where m: "maxRequests = Suc m" using mx by (cases maxRequests) simp_all
  have mlt: "m < length rest" using lr m by simp
  have lastd: "(?d1 # ds) ! maxRequests = ds ! m" by (simp add: m)
  from al mlt m have nal: "\<not> allowed (ds ! m)"
    and ra: "retryAfter (ds ! m) = Some (t1 + windowMs - rest ! m)" by auto
  have "rest ! m \<in> set rest" using mlt by simp
  with wr have pos: "0 < t1 + windowMs - rest ! m" by auto
  have exp: "admit windowMs maxRequests t' clientKey reg2 =
     ((if 1 > maxRequests then \<lparr>allowed = False, retryAfter = Some (t' + windowMs - t')\<rparr>
       else \<lparr>allowed = True, retryAfter = None\<rparr>),
      reg2(clientKey \<mapsto> \<lparr>windowStartedAt = t', count = 1\<rparr>))"
    using admit_expired[where registry = reg2 and clientKey = clientKey and began = t1
        and c = "1 + length rest" and windowMs = windowMs and t = t' and maxRequests = maxRequests]
      fin later by (simp add: ts)
  show ?thesis unfolding e fst_conv snd_conv exp lastd
    using first nal ra pos mx by simp
qed

theorem rate_limit_window_witness:
  "(0::int) < 60000 \<and> (1::nat) \<le> 3 \<and> (Map.empty :: string \<rightharpoonup> RateWindow) ''A'' = None
   \<and> length [0, 1, 2, 3 :: int] = 3 + 1
   \<and> set [0, 1, 2, 3 :: int] \<subseteq> {hd [0, 1, 2, 3] ..< hd [0, 1, 2, 3] + 60000}
   \<and> hd [0, 1, 2, 3 :: int] + 60000 < 60001
   \<and> map allowed (fst (admit_all 60000 3 ''A'' [0, 1, 2, 3] Map.empty)) = [True, True, True, False]
   \<and> retryAfter (fst (admit_all 60000 3 ''A'' [0, 1, 2, 3] Map.empty) ! 3) = Some 59997
   \<and> allowed (fst (admit 60000 3 60001 ''A'' (snd (admit_all 60000 3 ''A'' [0, 1, 2, 3] Map.empty))))
   \<and> map_option count
        (snd (admit 60000 3 60001 ''A'' (snd (admit_all 60000 3 ''A'' [0, 1, 2, 3] Map.empty))) ''A'')
       = Some 1"
proof -
  have h: "(0::int) < 60000" "(1::nat) \<le> 3" "(Map.empty :: string \<rightharpoonup> RateWindow) ''A'' = None"
    "length [0, 1, 2, 3 :: int] = 3 + 1"
    "\<forall>t \<in> set [0, 1, 2, 3 :: int]. hd [0, 1, 2, 3] \<le> t \<and> t < hd [0, 1, 2, 3] + 60000"
    "hd [0, 1, 2, 3 :: int] + 60000 < 60001"
    by simp_all
  have ev: "map allowed (fst (admit_all 60000 3 ''A'' [0, 1, 2, 3] Map.empty)) = [True, True, True, False]"
    "retryAfter (fst (admit_all 60000 3 ''A'' [0, 1, 2, 3] Map.empty) ! 3) = Some 59997"
    by (simp_all add: admit_def Let_def)
  have s: "set [0, 1, 2, 3 :: int] \<subseteq> {hd [0, 1, 2, 3] ..< hd [0, 1, 2, 3] + 60000}" by simp
  from rate_limit_window[where windowMs = 60000 and maxRequests = 3 and registry = Map.empty
      and clientKey = "''A''" and ts = "[0, 1, 2, 3]" and t' = 60001] h ev s
  show ?thesis by simp
qed

end
